theory Spec2Isabelle
  imports Complex_Main "HOL-Library.Sublist" "HOL-Library.Word"
begin

section \<open>Python values used by backend.py\<close>

text \<open>
  A Python \<open>str\<close> is a sequence of Unicode code points, and \<open>len\<close> counts code points.
  A string is therefore a list of code points (natural numbers); \<open>lit\<close> turns an ASCII
  literal into such a list.
\<close>

type_synonym pystr = "nat list"

definition lit :: "string \<Rightarrow> pystr" where
  "lit s = map of_char s"

text \<open>
  The exceptions that the modelled code can raise: \<open>ValueError\<close> (\<open>range\<close> with step 0),
  \<open>AssertionError\<close> (the assertions of the faiss Python wrapper: the dimension check of
  \<open>add\<close> and \<open>search\<close>, and \<open>k > 0\<close>), \<open>IndexError\<close> (list index out of range),
  \<open>AttributeError\<close> (a method called on \<open>None\<close>), \<open>HTTPException\<close> with its status
  code, and \<open>UnicodeDecodeError\<close>.
\<close>

datatype error =
  ValueError | AssertionError | IndexError | AttributeError | HTTPException nat | UnicodeDecodeError

text \<open>
  \<open>str.strip()\<close> and the regular expression class \<open>\s\<close> (on a \<open>str\<close> pattern) use the
  same set of white space code points.
\<close>

definition isspace :: "nat \<Rightarrow> bool" where
  "isspace c \<longleftrightarrow>
     (9 \<le> c \<and> c \<le> 13) \<or> (28 \<le> c \<and> c \<le> 32) \<or> c = 133 \<or> c = 160 \<or> c = 5760 \<or>
     (8192 \<le> c \<and> c \<le> 8202) \<or> c = 8232 \<or> c = 8233 \<or> c = 8239 \<or> c = 8287 \<or> c = 12288"

definition strip :: "pystr \<Rightarrow> pystr" where
  "strip s = rev (dropWhile isspace (rev (dropWhile isspace s)))"

text \<open>The character class \<open>[.!?]\<close> of the lookbehind.\<close>

definition terminal :: "nat \<Rightarrow> bool" where
  "terminal c \<longleftrightarrow> c = 46 \<or> c = 33 \<or> c = 63"

text \<open>
  \<open>re.split(r'(?<=[.!?])\s+', t)\<close>: scanning from the left, a separator starts at a white
  space character whose predecessor is one of \<open>. ! ?\<close> and extends over the whole run
  of white space. \<open>cur\<close> is the piece read since the last separator; right after a
  separator it is empty and the predecessor is white space, so the lookbehind fails.
\<close>

function re_split :: "pystr \<Rightarrow> pystr \<Rightarrow> pystr list" where
  "re_split cur [] = [cur]"
| "re_split cur (c # cs) =
     (if isspace c \<and> cur \<noteq> [] \<and> terminal (last cur)
      then cur # re_split [] (dropWhile isspace cs)
      else re_split (cur @ [c]) cs)"
  by pat_completeness auto
termination
  by (relation "measure (\<lambda>(cur, s). length s)")
     (auto simp: length_dropWhile_le le_imp_less_Suc)

text \<open>
  A slice \<open>s[i:j]\<close> of Python: a negative bound counts from the end, and both bounds are
  clamped to the sequence.
\<close>

definition slice_bound :: "nat \<Rightarrow> int \<Rightarrow> nat" where
  "slice_bound n i = (if i < 0 then nat (max (i + int n) 0) else min (nat i) n)"

definition py_slice :: "'a list \<Rightarrow> int \<Rightarrow> int \<Rightarrow> 'a list" where
  "py_slice s i j =
     (let lo = slice_bound (length s) i; hi = slice_bound (length s) j
      in take (hi - lo) (drop lo s))"

text \<open>\<open>s[i:]\<close>: the upper bound is the end of the sequence.\<close>

definition py_slice_from :: "'a list \<Rightarrow> int \<Rightarrow> 'a list" where
  "py_slice_from s i = drop (slice_bound (length s) i) s"

text \<open>
  \<open>range(0, n, step)\<close> for \<open>n = len(s)\<close>: raises ValueError for step 0, is empty for a
  negative step, and otherwise counts 0, step, 2 step, ... below \<open>n\<close>.
\<close>

definition py_range0 :: "nat \<Rightarrow> int \<Rightarrow> error + nat list" where
  "py_range0 n step =
     (if step = 0 then Inl ValueError
      else if step < 0 then Inr []
      else Inr (map (\<lambda>k. k * nat step) [0 ..< (n + nat step - 1) div nat step]))"

section \<open>The chunker: split_text\<close>

text \<open>
  The \<open>for s in sentences\<close> loop of \<open>split_text\<close>, on the pair \<open>(chunks, cur)\<close>.
\<close>

fun split_loop :: "int \<Rightarrow> int \<Rightarrow> pystr list \<Rightarrow> pystr list \<times> pystr \<Rightarrow> error + (pystr list \<times> pystr)" where
  "split_loop sz overlap [] (chunks, cur) = Inr (chunks, cur)"
| "split_loop sz overlap (s # ss) (chunks, cur) =
     (if int (length cur) + int (length s) \<le> sz
      then split_loop sz overlap ss (chunks, strip (cur @ lit '' '' @ s))
      else
        (let chunks1 = (if cur \<noteq> [] then chunks @ [cur] else chunks)
         in if int (length s) > sz
            then (case py_range0 (length s) (sz - overlap) of
                    Inl e \<Rightarrow> Inl e
                  | Inr starts \<Rightarrow>
                      split_loop sz overlap ss
                        (chunks1 @ map (\<lambda>i. py_slice s (int i) (int i + sz)) starts, []))
            else split_loop sz overlap ss (chunks1, s)))"

definition split_text :: "pystr \<Rightarrow> int \<Rightarrow> int \<Rightarrow> error + pystr list" where
  "split_text text sz overlap =
     (if text = [] then Inr []
      else (case split_loop sz overlap (re_split [] (strip text)) ([], []) of
              Inl e \<Rightarrow> Inl e
            | Inr (chunks, cur) \<Rightarrow> Inr (if cur \<noteq> [] then chunks @ [cur] else chunks)))"

definition CHUNK_SIZE :: int where "CHUNK_SIZE = 800"
definition CHUNK_OVERLAP :: int where "CHUNK_OVERLAP = 150"

section \<open>Python objects: the metadata dictionaries\<close>

text \<open>
  A metadata record is a \<open>dict\<close> with the keys \<open>title\<close>, \<open>url\<close>, \<open>chunk_id\<close>, \<open>text\<close>
  and, on the copies that \<open>search\<close> returns, \<open>score\<close>. Dictionaries are objects: the list
  \<open>store.metadata\<close> holds references to them. The object heap is a list of
  dictionaries, a reference is a position in it, and a new object is appended, so that
  it never shares its address with an older one.
\<close>

record meta =
  m_title :: "pystr option"
  m_url :: "pystr option"
  m_chunk_id :: pystr
  m_text :: pystr
  m_score :: "real option"

type_synonym heap = "meta list"
type_synonym ref = nat

definition alloc :: "heap \<Rightarrow> meta \<Rightarrow> ref \<times> heap" where
  "alloc h m = (length h, h @ [m])"

fun alloc_all :: "heap \<Rightarrow> meta list \<Rightarrow> ref list \<times> heap" where
  "alloc_all h [] = ([], h)"
| "alloc_all h (m # ms) =
     (let (a, h1) = alloc h m; (as, h2) = alloc_all h1 ms in (a # as, h2))"

text \<open>\<open>xs[i]\<close> on a list: a negative index counts from the end, out of range raises.\<close>

definition py_get :: "'a list \<Rightarrow> int \<Rightarrow> error + 'a" where
  "py_get xs i =
     (if 0 \<le> i \<and> i < int (length xs) then Inr (xs ! nat i)
      else if i < 0 \<and> - int (length xs) \<le> i then Inr (xs ! nat (int (length xs) + i))
      else Inl IndexError)"

section \<open>The faiss index (external library)\<close>

text \<open>
  \<open>faiss.IndexFlatIP\<close> is not code of this repository. It is modelled by what its Python
  wrapper does: an index has a dimension \<open>d\<close> and the stored vectors \<open>xb\<close>
  (\<open>ntotal\<close> is their number); \<open>add\<close> asserts that the rows have \<open>d\<close> columns before it
  stores anything; \<open>search\<close> asserts the dimension of the queries and \<open>k > 0\<close>, and
  returns for each query row \<open>k\<close> scores and \<open>k\<close> ids: the ids of the stored vectors
  with the largest inner products, best first, filled up with the id \<open>-1\<close> (and the
  lowest float as score) when fewer than \<open>k\<close> vectors are stored. float32 numbers are
  idealised as reals. A two-dimensional numpy array is the list of its rows, and
  \<open>shape[1]\<close> of a non-empty array is the length of its first row.
\<close>

type_synonym vec = "real list"

record faiss_index =
  d :: nat
  xb :: "vec list"

definition ntotal :: "faiss_index \<Rightarrow> nat" where
  "ntotal ix = length (xb ix)"

definition IndexFlatIP :: "nat \<Rightarrow> faiss_index" where
  "IndexFlatIP n = \<lparr>d = n, xb = []\<rparr>"

definition faiss_add :: "faiss_index \<Rightarrow> vec list \<Rightarrow> error + faiss_index" where
  "faiss_add ix x =
     (if \<forall>v \<in> set x. length v = d ix then Inr (ix\<lparr>xb := xb ix @ x\<rparr>) else Inl AssertionError)"

definition inner_product :: "vec \<Rightarrow> vec \<Rightarrow> real" where
  "inner_product q v = (\<Sum>(a, b) \<leftarrow> zip q v. a * b)"

definition FLT_LOWEST :: real where
  "FLT_LOWEST = - 340282346638528859811704183484516925440"

definition faiss_search_row :: "faiss_index \<Rightarrow> nat \<Rightarrow> vec \<Rightarrow> (real \<times> int) list" where
  "faiss_search_row ix k q =
     (let scored = zip (map (inner_product q) (xb ix)) (map int [0 ..< ntotal ix]);
          best = take k (sort_key (\<lambda>(s, i). - s) scored)
      in best @ replicate (k - length best) (FLT_LOWEST, - 1))"

definition faiss_search :: "faiss_index \<Rightarrow> vec list \<Rightarrow> int \<Rightarrow> error + (real \<times> int) list list" where
  "faiss_search ix x k =
     (if \<not> (\<forall>q \<in> set x. length q = d ix) then Inl AssertionError
      else if \<not> k > 0 then Inl AssertionError
      else Inr (map (faiss_search_row ix (nat k)) x))"

section \<open>FaissStore\<close>

text \<open>
  The process state: the object heap and the three attributes of the one \<open>store\<close>
  object. The files \<open>faiss.index\<close> and \<open>faiss_meta.json\<close> are the disk.
\<close>

record state =
  heap :: heap
  index :: "faiss_index option"
  metadata :: "ref list"
  dim :: "nat option"

record disk =
  index_file :: "faiss_index option"
  meta_file :: "meta list option"

definition FaissStore_init :: "heap \<Rightarrow> state" where
  "FaissStore_init h = \<lparr>heap = h, index = None, metadata = [], dim = None\<rparr>"

definition init_if_needed :: "state \<Rightarrow> nat \<Rightarrow> state" where
  "init_if_needed st n =
     (if index st = None then st\<lparr>dim := Some n, index := Some (IndexFlatIP n)\<rparr> else st)"

text \<open>\<open>embs / (np.linalg.norm(embs, axis=1, keepdims=True) + 1e-8)\<close>, row by row.\<close>

definition l2norm :: "vec \<Rightarrow> real" where
  "l2norm v = sqrt (\<Sum>x \<leftarrow> v. x * x)"

definition normalize_rows :: "vec list \<Rightarrow> vec list" where
  "normalize_rows embs = map (\<lambda>v. map (\<lambda>x. x / (l2norm v + 1 / 100000000)) v) embs"

text \<open>
  \<open>add\<close> returns nothing or raises; the state after the call is returned in both cases.
  \<open>metas\<close> are references to the dictionaries that the caller has built.
\<close>

definition add :: "state \<Rightarrow> vec list \<Rightarrow> ref list \<Rightarrow> (error + unit) \<times> state" where
  "add st embs metas =
     (if length embs = 0 then (Inr (), st)
      else
        (let st1 = init_if_needed st (length (hd embs));
             nrm = normalize_rows embs
         in case index st1 of
              None \<Rightarrow> (Inl AttributeError, st1)
            | Some ix \<Rightarrow>
                (case faiss_add ix nrm of
                   Inl e \<Rightarrow> (Inl e, st1)
                 | Inr ix1 \<Rightarrow>
                     (Inr (), st1\<lparr>index := Some ix1, metadata := metadata st1 @ metas\<rparr>))))"

text \<open>
  The loop of \<open>search\<close> over \<open>zip(D[0], I[0])\<close>: \<open>self.metadata[idx].copy()\<close> allocates a
  new dictionary with the entries of the stored one, and \<open>m["score"] = float(score)\<close>
  writes into that new object.
\<close>

fun search_loop :: "ref list \<Rightarrow> (real \<times> int) list \<Rightarrow> heap \<Rightarrow> ref list \<Rightarrow> (error + ref list) \<times> heap" where
  "search_loop md [] h out = (Inr out, h)"
| "search_loop md ((score, idx) # rest) h out =
     (if idx < 0 \<or> idx \<ge> int (length md) then search_loop md rest h out
      else (case py_get md idx of
              Inl e \<Rightarrow> (Inl e, h)
            | Inr a \<Rightarrow>
                (let (m, h1) = alloc h (h ! a);
                     h2 = h1[m := (h1 ! m)\<lparr>m_score := Some score\<rparr>]
                 in search_loop md rest h2 (out @ [m]))))"

text \<open>
  The entries \<open>(score, idx)\<close> of a result row that the loop does not skip: the negation
  of its guard \<open>idx < 0 or idx >= len(self.metadata)\<close>.
\<close>

definition in_range :: "ref list \<Rightarrow> real \<times> int \<Rightarrow> bool" where
  "in_range md r \<longleftrightarrow> 0 \<le> snd r \<and> snd r < int (length md)"

definition search :: "state \<Rightarrow> vec list \<Rightarrow> int \<Rightarrow> (error + ref list) \<times> state" where
  "search st q_emb k =
     (case index st of
        None \<Rightarrow> (Inr [], st)
      | Some ix \<Rightarrow>
          if ntotal ix = 0 then (Inr [], st)
          else (case faiss_search ix (normalize_rows q_emb) k of
                  Inl e \<Rightarrow> (Inl e, st)
                | Inr DI \<Rightarrow>
                    (case py_get DI 0 of
                       Inl e \<Rightarrow> (Inl e, st)
                     | Inr row \<Rightarrow>
                         (let (res, h) = search_loop (metadata st) row (heap st) []
                          in (res, st\<lparr>heap := h\<rparr>)))))"

text \<open>
  \<open>save\<close> writes the index file only if there is an index, and then the metadata file,
  which holds the contents of the dictionaries.
\<close>

definition save :: "state \<Rightarrow> disk \<Rightarrow> disk" where
  "save st dk =
     (let dk1 = (case index st of None \<Rightarrow> dk | Some ix \<Rightarrow> dk\<lparr>index_file := Some ix\<rparr>)
      in dk1\<lparr>meta_file := Some (map (\<lambda>a. heap st ! a) (metadata st))\<rparr>)"

text \<open>
  \<open>load\<close> reads each file that exists, independently of the other: \<open>json.load\<close> builds
  new dictionaries, \<open>faiss.read_index\<close> a new index.
\<close>

definition load :: "state \<Rightarrow> disk \<Rightarrow> state" where
  "load st dk =
     (let st1 = (case meta_file dk of
                   None \<Rightarrow> st
                 | Some ms \<Rightarrow> (let (as, h) = alloc_all (heap st) ms
                              in st\<lparr>heap := h, metadata := as\<rparr>))
      in case index_file dk of
           None \<Rightarrow> st1
         | Some ix \<Rightarrow> st1\<lparr>index := Some ix, dim := Some (d ix)\<rparr>)"

text \<open>The number of stored vectors: none while there is no index.\<close>

definition num_vectors :: "state \<Rightarrow> nat" where
  "num_vectors st = (case index st of None \<Rightarrow> 0 | Some ix \<Rightarrow> ntotal ix)"

section \<open>The endpoints /query and /meta\<close>

text \<open>
  The embedding model is external: \<open>encode\<close> maps a list of strings to an array of
  vectors and is a parameter of every function that calls it.
\<close>

type_synonym encoder = "pystr list \<Rightarrow> vec list"

definition query_endpoint :: "encoder \<Rightarrow> state \<Rightarrow> pystr \<Rightarrow> int \<Rightarrow> (error + meta list) \<times> state" where
  "query_endpoint encode st q top_k =
     (if q = [] then (Inl (HTTPException 400), st)
      else
        (let emb = encode [q];
             (res, st1) = search st emb top_k
         in case res of
              Inl e \<Rightarrow> (Inl e, st1)
            | Inr out \<Rightarrow> (Inr (map (\<lambda>a. heap st1 ! a) out), st1)))"

text \<open>\<open>{"total": len(store.metadata), "items": store.metadata[-n:][::-1]}\<close>\<close>

definition get_meta :: "state \<Rightarrow> int \<Rightarrow> nat \<times> meta list" where
  "get_meta st n =
     (length (metadata st),
      map (\<lambda>a. heap st ! a) (rev (py_slice_from (metadata st) (- n))))"

section \<open>Formatting and decoding\<close>

text \<open>\<open>str(n)\<close> for an integer, as the f-strings of the chunk ids use it.\<close>

fun str_nat :: "nat \<Rightarrow> pystr" where
  "str_nat n = (if n < 10 then [48 + n] else str_nat (n div 10) @ [48 + n mod 10])"

declare str_nat.simps [simp del]

definition str_int :: "int \<Rightarrow> pystr" where
  "str_int i = (if i < 0 then 45 # str_nat (nat (- i)) else str_nat (nat i))"

fun py_join :: "pystr \<Rightarrow> pystr list \<Rightarrow> pystr" where
  "py_join sep [] = []"
| "py_join sep [x] = x"
| "py_join sep (x # y # ys) = x @ sep @ py_join sep (y # ys)"

definition endswith :: "pystr \<Rightarrow> pystr \<Rightarrow> bool" where
  "endswith s suf \<longleftrightarrow> length suf \<le> length s \<and> drop (length s - length suf) s = suf"

text \<open>
  \<open>str.lower()\<close>, given here on the ASCII letters. Python lowers other cased letters
  too, but none of them becomes one of the characters of \<open>.pdf\<close> and \<open>.csv\<close>, so the
  two suffix tests of \<open>ingest\<close> come out the same.
\<close>

definition lower :: "pystr \<Rightarrow> pystr" where
  "lower s = map (\<lambda>c. if 65 \<le> c \<and> c \<le> 90 then c + 32 else c) s"

text \<open>
  \<open>bytes.decode("utf-8", errors=...)\<close> is the codec of the Python library, modelled
  after its decoder: \<open>utf8_step\<close> reads one character from the front of the input and
  returns it with the number of bytes it takes, or returns \<open>None\<close> with the number of
  bytes that the decoder reports as undecodable (an invalid start byte, or the valid
  beginning of a sequence that the next byte or the end of the input breaks). With
  \<open>errors="strict"\<close> such a report raises UnicodeDecodeError; with \<open>errors="ignore"\<close> the
  reported bytes are skipped and decoding goes on behind them.
\<close>

type_synonym byte = "8 word"

definition cont :: "nat \<Rightarrow> bool" where
  "cont b \<longleftrightarrow> 128 \<le> b \<and> b < 192"

definition second3 :: "nat \<Rightarrow> nat \<Rightarrow> bool" where
  "second3 b0 b1 \<longleftrightarrow> cont b1 \<and> (b0 = 224 \<longrightarrow> 160 \<le> b1) \<and> (b0 = 237 \<longrightarrow> b1 < 160)"

definition second4 :: "nat \<Rightarrow> nat \<Rightarrow> bool" where
  "second4 b0 b1 \<longleftrightarrow> cont b1 \<and> (b0 = 240 \<longrightarrow> 144 \<le> b1) \<and> (b0 = 244 \<longrightarrow> b1 < 144)"

fun utf8_step :: "nat list \<Rightarrow> nat option \<times> nat" where
  "utf8_step [] = (None, 0)"
| "utf8_step (b0 # r) =
     (if b0 < 128 then (Some b0, 1)
      else if b0 < 194 then (None, 1)
      else if b0 < 224 then
        (case r of
           [] \<Rightarrow> (None, 1)
         | b1 # _ \<Rightarrow>
             if cont b1 then (Some ((b0 - 192) * 64 + (b1 - 128)), 2) else (None, 1))
      else if b0 < 240 then
        (case r of
           [] \<Rightarrow> (None, 1)
         | b1 # r1 \<Rightarrow>
             if \<not> second3 b0 b1 then (None, 1)
             else (case r1 of
                     [] \<Rightarrow> (None, 2)
                   | b2 # _ \<Rightarrow>
                       if cont b2
                       then (Some ((b0 - 224) * 4096 + (b1 - 128) * 64 + (b2 - 128)), 3)
                       else (None, 2)))
      else if b0 < 245 then
        (case r of
           [] \<Rightarrow> (None, 1)
         | b1 # r1 \<Rightarrow>
             if \<not> second4 b0 b1 then (None, 1)
             else (case r1 of
                     [] \<Rightarrow> (None, 2)
                   | b2 # r2 \<Rightarrow>
                       if \<not> cont b2 then (None, 2)
                       else (case r2 of
                               [] \<Rightarrow> (None, 3)
                             | b3 # _ \<Rightarrow>
                                 if cont b3
                                 then (Some ((b0 - 240) * 262144 + (b1 - 128) * 4096
                                             + (b2 - 128) * 64 + (b3 - 128)), 4)
                                 else (None, 3))))
      else (None, 1))"

datatype errors_mode = Strict | Ignore

function utf8_loop :: "errors_mode \<Rightarrow> nat list \<Rightarrow> error + pystr" where
  "utf8_loop mode [] = Inr []"
| "utf8_loop mode (b # bs) =
     (case utf8_step (b # bs) of
        (Some c, n) \<Rightarrow>
          (case utf8_loop mode (drop (n - 1) bs) of Inl e \<Rightarrow> Inl e | Inr t \<Rightarrow> Inr (c # t))
      | (None, n) \<Rightarrow>
          (case mode of
             Strict \<Rightarrow> Inl UnicodeDecodeError
           | Ignore \<Rightarrow> utf8_loop mode (drop (n - 1) bs)))"
  by pat_completeness auto
termination
  by (relation "measure (\<lambda>(mode, bs). length bs)") auto

definition decode_utf8 :: "errors_mode \<Rightarrow> byte list \<Rightarrow> error + pystr" where
  "decode_utf8 mode b = utf8_loop mode (map unat b)"

section \<open>The ingestion endpoints\<close>

text \<open>
  The dictionaries that the two endpoints build for the chunks of one item:
  \<open>f"url_{ts}_{i}"\<close> for a URL and \<open>f"{name}_{ts}_{i}"\<close> for a file.
\<close>

definition url_metas :: "pystr \<Rightarrow> int \<Rightarrow> pystr list \<Rightarrow> meta list" where
  "url_metas u ts parts =
     map (\<lambda>(i, t). \<lparr>m_title = None, m_url = Some u,
                    m_chunk_id = lit ''url_'' @ str_int ts @ lit ''_'' @ str_nat i,
                    m_text = t, m_score = None\<rparr>)
         (enumerate 0 parts)"

definition file_metas :: "pystr \<Rightarrow> int \<Rightarrow> pystr list \<Rightarrow> meta list" where
  "file_metas name ts parts =
     map (\<lambda>(i, t). \<lparr>m_title = Some name, m_url = None,
                    m_chunk_id = name @ lit ''_'' @ str_int ts @ lit ''_'' @ str_nat i,
                    m_text = t, m_score = None\<rparr>)
         (enumerate 0 parts)"

text \<open>
  Embedding and storing the chunks of one item: \<open>embed_model.encode\<close>, the dictionaries,
  \<open>store.add\<close>. The result is the number of chunks.
\<close>

definition store_parts :: "encoder \<Rightarrow> state \<Rightarrow> pystr list \<Rightarrow> meta list \<Rightarrow> (error + nat) \<times> state" where
  "store_parts encode st parts ms =
     (let embs = encode parts;
          (metas, h) = alloc_all (heap st) ms;
          (r, st1) = add (st\<lparr>heap := h\<rparr>) embs metas
      in case r of Inl e \<Rightarrow> (Inl e, st1) | Inr _ \<Rightarrow> (Inr (length parts), st1))"

text \<open>
  \<open>ingest_urls\<close>. What the network and the clock deliver is part of the input: each
  item is the URL, the text that \<open>trafilatura\<close> extracted from it (\<open>None\<close> when the fetch
  or the extraction gave nothing) and the value of \<open>int(time.time())\<close> read for it.
  The progress notifications do not touch the store and are left out.
\<close>

fun ingest_urls_loop :: "encoder \<Rightarrow> (pystr \<times> pystr option \<times> int) list \<Rightarrow> state \<Rightarrow> nat \<Rightarrow> (error + nat) \<times> state" where
  "ingest_urls_loop encode [] st total_added = (Inr total_added, st)"
| "ingest_urls_loop encode ((u, extracted, ts) # rest) st total_added =
     (case extracted of
        None \<Rightarrow> ingest_urls_loop encode rest st total_added
      | Some t \<Rightarrow>
          if t = [] then ingest_urls_loop encode rest st total_added
          else (case split_text t CHUNK_SIZE CHUNK_OVERLAP of
                  Inl e \<Rightarrow> (Inl e, st)
                | Inr parts \<Rightarrow>
                    (case store_parts encode st parts (url_metas u ts parts) of
                       (Inl e, st1) \<Rightarrow> (Inl e, st1)
                     | (Inr n, st1) \<Rightarrow> ingest_urls_loop encode rest st1 (total_added + n))))"

definition ingest_urls :: "encoder \<Rightarrow> state \<Rightarrow> disk \<Rightarrow> (pystr \<times> pystr option \<times> int) list \<Rightarrow> (error + nat) \<times> state \<times> disk" where
  "ingest_urls encode st dk urls =
     (case ingest_urls_loop encode urls st 0 of
        (Inl e, st1) \<Rightarrow> (Inl e, st1, dk)
      | (Inr total_added, st1) \<Rightarrow> (Inr total_added, st1, save st1 dk))"

text \<open>
  \<open>ingest\<close>. An item is the file name, the bytes read from the upload and the clock
  value. \<open>PdfReader\<close> and \<open>pandas.read_csv\<close> are external and parameters: \<open>pdf_pages\<close>
  gives the extracted text of each page, \<open>read_csv\<close> the column names and, for each
  row, the cells as \<open>str\<close> renders them.
\<close>

definition csv_rows :: "pystr list \<Rightarrow> pystr list list \<Rightarrow> pystr list" where
  "csv_rows columns rws =
     map (\<lambda>row. py_join (lit '' | '') (map (\<lambda>(c, v). c @ lit '': '' @ v) (zip columns row))) rws"

type_synonym pdf_reader = "byte list \<Rightarrow> error + pystr list"
type_synonym csv_reader = "byte list \<Rightarrow> error + (pystr list \<times> pystr list list)"

text \<open>The text of a file that is not a CSV file, as \<open>ingest\<close> obtains it.\<close>

definition file_text :: "pdf_reader \<Rightarrow> pystr \<Rightarrow> byte list \<Rightarrow> error + pystr" where
  "file_text pdf_pages name b =
     (if endswith (lower name) (lit ''.pdf'')
      then (case pdf_pages b of Inl e \<Rightarrow> Inl e | Inr pages \<Rightarrow> Inr (py_join (lit [CHR 0x0A]) pages))
      else decode_utf8 Ignore b)"

fun ingest_loop :: "encoder \<Rightarrow> pdf_reader \<Rightarrow> csv_reader \<Rightarrow> (pystr \<times> byte list \<times> int) list \<Rightarrow> state \<Rightarrow> nat \<Rightarrow> (error + nat) \<times> state" where
  "ingest_loop encode pdf_pages read_csv [] st added_total = (Inr added_total, st)"
| "ingest_loop encode pdf_pages read_csv ((name, b, ts) # rest) st added_total =
     (if \<not> endswith (lower name) (lit ''.pdf'') \<and> endswith (lower name) (lit ''.csv'')
      then (case read_csv b of
              Inl e \<Rightarrow> (Inl e, st)
            | Inr (columns, rws) \<Rightarrow>
                (let parts = csv_rows columns rws
                 in case store_parts encode st parts (file_metas name ts parts) of
                      (Inl e, st1) \<Rightarrow> (Inl e, st1)
                    | (Inr n, st1) \<Rightarrow>
                        ingest_loop encode pdf_pages read_csv rest st1 (added_total + n)))
      else (case file_text pdf_pages name b of
              Inl e \<Rightarrow> (Inl e, st)
            | Inr t \<Rightarrow>
                (case split_text t CHUNK_SIZE CHUNK_OVERLAP of
                   Inl e \<Rightarrow> (Inl e, st)
                 | Inr parts \<Rightarrow>
                     (case store_parts encode st parts (file_metas name ts parts) of
                        (Inl e, st1) \<Rightarrow> (Inl e, st1)
                      | (Inr n, st1) \<Rightarrow>
                          ingest_loop encode pdf_pages read_csv rest st1 (added_total + n)))))"

definition ingest :: "encoder \<Rightarrow> pdf_reader \<Rightarrow> csv_reader \<Rightarrow> state \<Rightarrow> disk \<Rightarrow> (pystr \<times> byte list \<times> int) list \<Rightarrow> (error + nat) \<times> state \<times> disk" where
  "ingest encode pdf_pages read_csv st dk files =
     (case ingest_loop encode pdf_pages read_csv files st 0 of
        (Inl e, st1) \<Rightarrow> (Inl e, st1, dk)
      | (Inr added_total, st1) \<Rightarrow> (Inr added_total, st1, save st1 dk))"

section \<open>The chunker and the size bound\<close>

text \<open>
  Claim C1 (every chunk that \<open>split_text\<close> returns has length at most \<open>size\<close>) fails on
  the code. The guard \<open>len(cur) + len(s) <= size\<close> does not count the space that the
  join \<open>cur + " " + s\<close> puts between the buffer and the sentence: with \<open>size = 4\<close> and
  \<open>overlap = 0\<close> the text \<open>"a. b."\<close> has the sentences \<open>"a."\<close> and \<open>"b."\<close>,
  \<open>2 + 2 <= 4\<close> holds, and the one chunk returned is \<open>"a. b."\<close>, of length 5.
\<close>

theorem split_text_chunk_longer_than_size:
  "split_text (lit ''a. b.'') 4 0 = Inr [lit ''a. b.''] \<and> int (length (lit ''a. b.'')) > 4"
  by (simp add: split_text_def lit_def strip_def isspace_def terminal_def)

text \<open>
  What the guard does ensure, for a positive \<open>size\<close>: no chunk is longer than
  \<open>size + 1\<close>.
\<close>

lemma length_strip_le: "length (strip s) \<le> length s"
proof -
  have "length (strip s) = length (dropWhile isspace (rev (dropWhile isspace s)))"
    by (simp add: strip_def)
  also have "\<dots> \<le> length (rev (dropWhile isspace s))" by (rule length_dropWhile_le)
  also have "\<dots> = length (dropWhile isspace s)" by simp
  also have "\<dots> \<le> length s" by (rule length_dropWhile_le)
  finally show ?thesis .
qed

lemma length_py_slice_window: "0 \<le> sz \<Longrightarrow> int (length (py_slice s (int i) (int i + sz))) \<le> sz"
  by (auto simp: py_slice_def slice_bound_def Let_def min_def)

lemma split_loop_bound:
  assumes "0 < sz"
    and "\<forall>c \<in> set chunks. int (length c) \<le> sz + 1" and "int (length cur) \<le> sz + 1"
    and "split_loop sz overlap ss (chunks, cur) = Inr (chunks', cur')"
  shows "(\<forall>c \<in> set chunks'. int (length c) \<le> sz + 1) \<and> int (length cur') \<le> sz + 1"
  using assms(2-4)
proof (induction ss arbitrary: chunks cur)
  case Nil
  then show ?case by simp
next
  case (Cons s ss)
  show ?case
  proof (cases "int (length cur) + int (length s) \<le> sz")
    case True
    have "length (strip (cur @ lit '' '' @ s)) \<le> length (cur @ lit '' '' @ s)"
      by (rule length_strip_le)
    then have "int (length (strip (cur @ lit '' '' @ s))) \<le> sz + 1"
      using True by (simp add: lit_def)
    moreover have "split_loop sz overlap ss (chunks, strip (cur @ lit '' '' @ s)) = Inr (chunks', cur')"
      using Cons.prems(3) True by simp
    ultimately show ?thesis using Cons.IH Cons.prems(1) by blast
  next
    case False
    let ?chunks1 = "if cur \<noteq> [] then chunks @ [cur] else chunks"
    have c1: "\<forall>c \<in> set ?chunks1. int (length c) \<le> sz + 1"
      using Cons.prems(1,2) by auto
    show ?thesis
    proof (cases "int (length s) > sz")
      case long: True
      then obtain starts where st: "py_range0 (length s) (sz - overlap) = Inr starts"
        and l: "split_loop sz overlap ss
                  (?chunks1 @ map (\<lambda>i. py_slice s (int i) (int i + sz)) starts, []) = Inr (chunks', cur')"
        using Cons.prems(3) False by (auto simp: Let_def split: sum.splits)
      have "\<forall>c \<in> set (?chunks1 @ map (\<lambda>i. py_slice s (int i) (int i + sz)) starts). int (length c) \<le> sz + 1"
      proof
        fix c assume "c \<in> set (?chunks1 @ map (\<lambda>i. py_slice s (int i) (int i + sz)) starts)"
        then consider "c \<in> set ?chunks1" | i where "c = py_slice s (int i) (int i + sz)" by auto
        then show "int (length c) \<le> sz + 1"
        proof cases
          case 1 then show ?thesis using c1 by blast
        next
          case 2
          have "int (length (py_slice s (int i) (int i + sz))) \<le> sz"
            using assms(1) by (intro length_py_slice_window) simp
          then show ?thesis using 2 by simp
        qed
      qed
      moreover have "int (length ([]::pystr)) \<le> sz + 1" using assms(1) by simp
      ultimately show ?thesis using Cons.IH l by blast
    next
      case short: False
      then have "split_loop sz overlap ss (?chunks1, s) = Inr (chunks', cur')"
        using Cons.prems(3) False by (simp add: Let_def)
      moreover have "int (length s) \<le> sz + 1" using short by simp
      ultimately show ?thesis using Cons.IH c1 by blast
    qed
  qed
qed

lemma split_text_bound:
  assumes "0 < sz" and "split_text t sz overlap = Inr chunks" and "c \<in> set chunks"
  shows "int (length c) \<le> sz + 1"
proof (cases "t = []")
  case True
  then show ?thesis using assms by (simp add: split_text_def)
next
  case False
  then obtain chunks' cur' where l: "split_loop sz overlap (re_split [] (strip t)) ([], []) = Inr (chunks', cur')"
    and r: "chunks = (if cur' \<noteq> [] then chunks' @ [cur'] else chunks')"
    using assms(2) by (auto simp: split_text_def split: sum.splits prod.splits)
  have "(\<forall>c \<in> set chunks'. int (length c) \<le> sz + 1) \<and> int (length cur') \<le> sz + 1"
    using assms(1) l by (intro split_loop_bound [of sz "[]" "[]" overlap "re_split [] (strip t)"]) auto
  then show ?thesis using r assms(3) by (auto split: if_splits)
qed
section \<open>GET /meta\<close>

text \<open>
  Claim C8 (for every \<open>n\<close>, \<open>items\<close> are exactly the \<open>n\<close> most recently added records)
  fails on the code at \<open>n = 0\<close>: \<open>store.metadata[-0:]\<close> is the whole list, so a store with
  two records answers \<open>GET /meta?n=0\<close> with both of them instead of none.
\<close>

theorem get_meta_zero_returns_all:
  "get_meta
     \<lparr>heap = [\<lparr>m_title = Some (lit ''f''), m_url = None, m_chunk_id = lit ''f_1_0'',
                m_text = lit ''one'', m_score = None\<rparr>,
              \<lparr>m_title = Some (lit ''f''), m_url = None, m_chunk_id = lit ''f_1_1'',
                m_text = lit ''two'', m_score = None\<rparr>],
      index = None, metadata = [0, 1], dim = None\<rparr> 0
   = (2, [\<lparr>m_title = Some (lit ''f''), m_url = None, m_chunk_id = lit ''f_1_1'',
            m_text = lit ''two'', m_score = None\<rparr>,
          \<lparr>m_title = Some (lit ''f''), m_url = None, m_chunk_id = lit ''f_1_0'',
            m_text = lit ''one'', m_score = None\<rparr>])"
  by (simp add: get_meta_def py_slice_from_def slice_bound_def)

text \<open>
  For a positive \<open>n\<close> the answer is as described: the last \<open>n\<close> records (all of them
  when there are fewer), newest first.
\<close>

lemma get_meta_positive:
  assumes "0 < n"
  shows "get_meta st n
           = (length (metadata st), map (\<lambda>a. heap st ! a) (take (nat n) (rev (metadata st))))"
proof -
  have "slice_bound (length (metadata st)) (- n) = length (metadata st) - nat n"
    using assms by (auto simp: slice_bound_def)
  then have "rev (py_slice_from (metadata st) (- n))
               = take (length (metadata st) - (length (metadata st) - nat n)) (rev (metadata st))"
    by (simp add: py_slice_from_def rev_drop)
  also have "\<dots> = take (nat n) (rev (metadata st))"
    by (cases "nat n \<le> length (metadata st)") simp_all
  finally have "rev (py_slice_from (metadata st) (- n)) = take (nat n) (rev (metadata st))" .
  then show ?thesis by (simp add: get_meta_def)
qed

section \<open>Chunk ids within one batch\<close>

text \<open>
  Claim C2 (the chunk ids of the records added by one batch are pairwise distinct) fails
  on the code. \<open>ingest_urls\<close> builds \<open>f"url_{ts}_{i}"\<close>: the source part is the constant
  \<open>url\<close>, \<open>ts\<close> is read per URL with a resolution of one second, and \<open>i\<close> starts at 0
  for every URL. Two URLs of one request that are handled within the same second both
  get the chunk id \<open>url_<ts>_0\<close>.
\<close>

theorem ingest_urls_duplicate_chunk_id:
  "(case ingest_urls (\<lambda>ps. map (\<lambda>p. [1]) ps) (FaissStore_init [])
            \<lparr>index_file = None, meta_file = None\<rparr>
            [(lit ''http://a'', Some (lit ''Hi.''), 1730000000),
             (lit ''http://b'', Some (lit ''Yo.''), 1730000000)] of
      (r, st, dk) \<Rightarrow> (r, map (\<lambda>a. m_chunk_id (heap st ! a)) (metadata st)))
   = (Inr 2, [lit ''url_1730000000_0'', lit ''url_1730000000_0''])"
  by (simp add: ingest_urls_def store_parts_def url_metas_def split_text_def lit_def strip_def
      isspace_def terminal_def CHUNK_SIZE_def CHUNK_OVERLAP_def FaissStore_init_def
      add_def init_if_needed_def IndexFlatIP_def faiss_add_def normalize_rows_def l2norm_def
      alloc_def str_int_def str_nat.simps save_def)

section \<open>The search loop\<close>

lemma py_get_in_range: "0 \<le> i \<Longrightarrow> i < int (length xs) \<Longrightarrow> py_get xs i = Inr (xs ! nat i)"
  by (simp add: py_get_def)

lemma search_loop_ext:
  assumes wf: "\<forall>a \<in> set md. a < length h0"
  shows "search_loop md raw (h0 @ ext) out =
           (Inr (out @ [length h0 + length ext ..< length h0 + length ext + length (filter (in_range md) raw)]),
            h0 @ ext @ map (\<lambda>(s, i). (h0 ! (md ! nat i))\<lparr>m_score := Some s\<rparr>) (filter (in_range md) raw))"
proof (induction raw arbitrary: ext out)
  case Nil
  show ?case by simp
next
  case (Cons r raw)
  obtain s i where r: "r = (s, i)" by (cases r)
  show ?case
  proof (cases "in_range md r")
    case False
    then have "i < 0 \<or> i \<ge> int (length md)" by (auto simp: in_range_def r)
    then show ?thesis using False Cons.IH [of ext out] by (simp add: r)
  next
    case True
    then have lo: "0 \<le> i" and hi: "i < int (length md)" by (auto simp: in_range_def r)
    let ?a = "md ! nat i"
    have a: "?a < length h0" using wf lo hi by simp
    have g: "py_get md i = Inr ?a" using lo hi by (rule py_get_in_range)
    have rd: "(h0 @ ext) ! ?a = h0 ! ?a" using a by (simp add: nth_append)
    let ?m = "length h0 + length ext"
    have upd: "((h0 @ ext) @ [h0 ! ?a])[?m := (((h0 @ ext) @ [h0 ! ?a]) ! ?m)\<lparr>m_score := Some s\<rparr>]
                 = h0 @ (ext @ [(h0 ! ?a)\<lparr>m_score := Some s\<rparr>])"
      by (simp add: list_update_append nth_append)
    have step: "search_loop md (r # raw) (h0 @ ext) out
                  = search_loop md raw (h0 @ (ext @ [(h0 ! ?a)\<lparr>m_score := Some s\<rparr>])) (out @ [?m])"
      using lo hi g rd upd by (simp add: r alloc_def)
    have ups: "[?m] @ [Suc ?m ..< Suc ?m + n] = [?m ..< ?m + Suc n]" for n
      by (simp add: upt_rec [of ?m])
    show ?thesis
      unfolding step Cons.IH using True ups [of "length (filter (in_range md) raw)"]
      by (simp add: r)
  qed
qed

lemma search_loop_total:
  "\<exists>res h'. search_loop md raw h out = (Inr res, h') \<and> take (length h) h' = h \<and>
       length res = length out + length (filter (in_range md) raw)"
proof (induction raw arbitrary: h out)
  case Nil
  show ?case by simp
next
  case (Cons r raw)
  obtain s i where r: "r = (s, i)" by (cases r)
  show ?case
  proof (cases "in_range md r")
    case False
    then have "i < 0 \<or> i \<ge> int (length md)" by (auto simp: in_range_def r)
    then show ?thesis using False Cons.IH [of h out] by (simp add: r)
  next
    case True
    then have lo: "0 \<le> i" and hi: "i < int (length md)" by (auto simp: in_range_def r)
    let ?a = "md ! nat i"
    let ?h2 = "h @ [(h ! ?a)\<lparr>m_score := Some s\<rparr>]"
    have g: "py_get md i = Inr ?a" using lo hi by (rule py_get_in_range)
    have step: "search_loop md (r # raw) h out = search_loop md raw ?h2 (out @ [length h])"
      using lo hi g by (simp add: r alloc_def)
    obtain res h' where ih: "search_loop md raw ?h2 (out @ [length h]) = (Inr res, h')"
      "take (length ?h2) h' = ?h2"
      "length res = length (out @ [length h]) + length (filter (in_range md) raw)"
      using Cons.IH [of ?h2 "out @ [length h]"] by blast
    have "take (length h) h' = take (length h) (take (length ?h2) h')"
      by (simp add: min_def)
    also have "\<dots> = h" unfolding ih(2) by simp
    finally have pre: "take (length h) h' = h" .
    show ?thesis unfolding step using ih(1) ih(3) pre True by simp
  qed
qed

lemma faiss_search_row_in_range:
  "length (filter (in_range md) (faiss_search_row ix k q)) \<le> ntotal ix"
proof -
  let ?scored = "zip (map (inner_product q) (xb ix)) (map int [0 ..< ntotal ix])"
  let ?best = "take k (sort_key (\<lambda>(s, i). - s) ?scored)"
  have pad: "filter (in_range md) (replicate n (FLT_LOWEST, - 1)) = []" for n
    by (simp add: in_range_def)
  have "length (filter (in_range md) (faiss_search_row ix k q)) = length (filter (in_range md) ?best)"
    by (simp add: faiss_search_row_def Let_def pad)
  also have "\<dots> \<le> length ?best" by (rule length_filter_le)
  also have "\<dots> \<le> ntotal ix" by (simp add: ntotal_def)
  finally show ?thesis .
qed

lemma search_empty: "num_vectors st = 0 \<Longrightarrow> search st q_emb k = (Inr [], st)"
  by (simp add: search_def num_vectors_def split: option.splits)

lemma search_cases:
  "(\<exists>e. search st q_emb k = (Inl e, st) \<and> (e = AssertionError \<or> e = IndexError \<and> q_emb = [])) \<or>
   (\<exists>res h'. search st q_emb k = (Inr res, st\<lparr>heap := h'\<rparr>) \<and> take (length (heap st)) h' = heap st \<and>
        length res \<le> num_vectors st)"
proof (cases "index st")
  case None
  then have "search st q_emb k = (Inr [], st\<lparr>heap := heap st\<rparr>)" by (simp add: search_def)
  then show ?thesis by (intro disjI2 exI [of _ "[]"] exI [of _ "heap st"]) simp
next
  case (Some ix)
  show ?thesis
  proof (cases "ntotal ix = 0")
    case True
    then have "search st q_emb k = (Inr [], st\<lparr>heap := heap st\<rparr>)" using Some by (simp add: search_def)
    then show ?thesis by (intro disjI2 exI [of _ "[]"] exI [of _ "heap st"]) simp
  next
    case nz: False
    show ?thesis
    proof (cases "faiss_search ix (normalize_rows q_emb) k")
      case (Inl e)
      then have "e = AssertionError" by (auto simp: faiss_search_def split: if_splits)
      then show ?thesis using Some nz Inl by (simp add: search_def)
    next
      case (Inr DI)
      then have DI: "DI = map (faiss_search_row ix (nat k)) (normalize_rows q_emb)"
        by (auto simp: faiss_search_def split: if_splits)
      show ?thesis
      proof (cases q_emb)
        case Nil
        then have "py_get DI 0 = Inl IndexError" by (simp add: DI py_get_def normalize_rows_def)
        then show ?thesis using Some nz Inr Nil by (simp add: search_def)
      next
        case (Cons q qs)
        then obtain row where row: "py_get DI 0 = Inr row"
          "row = faiss_search_row ix (nat k) (hd (normalize_rows q_emb))"
          by (simp add: DI py_get_def normalize_rows_def)
        obtain res h' where l: "search_loop (metadata st) row (heap st) [] = (Inr res, h')"
          "take (length (heap st)) h' = heap st"
          "length res = length ([]::ref list) + length (filter (in_range (metadata st)) row)"
          using search_loop_total [of "metadata st" row "heap st" "[]"] by blast
        have "length res \<le> ntotal ix" using l(3) faiss_search_row_in_range [of "metadata st" ix "nat k"] row(2) by simp
        then have "search st q_emb k = (Inr res, st\<lparr>heap := h'\<rparr>) \<and>
            take (length (heap st)) h' = heap st \<and> length res \<le> num_vectors st"
          using Some nz Inr row(1) l(1) l(2) by (simp add: search_def num_vectors_def)
        then show ?thesis by blast
      qed
    qed
  qed
qed


lemma search_returns:
  assumes "index st = Some ix" and "q_emb \<noteq> []" and "\<forall>q \<in> set q_emb. length q = d ix" and "0 < k"
  shows "\<exists>res. fst (search st q_emb k) = Inr res"
proof (cases "ntotal ix = 0")
  case True
  then show ?thesis using assms(1) by (simp add: search_def)
next
  case False
  have "\<forall>q \<in> set (normalize_rows q_emb). length q = d ix"
    using assms(3) by (auto simp: normalize_rows_def)
  then have fs: "faiss_search ix (normalize_rows q_emb) k
                   = Inr (map (faiss_search_row ix (nat k)) (normalize_rows q_emb))"
    using assms(4) by (simp add: faiss_search_def)
  obtain q qs where q: "normalize_rows q_emb = q # qs"
    using assms(2) by (cases q_emb) (auto simp: normalize_rows_def)
  have g: "py_get (map (faiss_search_row ix (nat k)) (normalize_rows q_emb)) 0
             = Inr (faiss_search_row ix (nat k) q)"
    by (simp add: q py_get_def)
  obtain res h' where "search_loop (metadata st) (faiss_search_row ix (nat k) q) (heap st) [] = (Inr res, h')"
    using search_loop_total [of "metadata st" "faiss_search_row ix (nat k) q" "heap st" "[]"] by blast
  then show ?thesis using assms(1) False fs g by (simp add: search_def)
qed


text \<open>
  Claim C9: the loop of \<open>search\<close> is total on every result row, whatever ids the index
  returns and whether or not the number of vectors agrees with the length of
  \<open>metadata\<close>. It returns one new dictionary for each entry whose id is in
  \<open>0 \<le> idx < len(metadata)\<close>, built from \<open>metadata[idx]\<close> with the score added, and skips
  every other entry; \<open>search\<close> on a query array with a row never raises IndexError. (The
  hypothesis says that the references in \<open>metadata\<close> point to existing objects.)
\<close>

theorem search_skips_out_of_range_ids:
  assumes "\<forall>a \<in> set (metadata st). a < length (heap st)"
  shows "search_loop (metadata st) raw (heap st) [] =
           (Inr [length (heap st) ..<
                 length (heap st) + length (filter (in_range (metadata st)) raw)],
            heap st @ map (\<lambda>(s, i). (heap st ! (metadata st ! nat i))\<lparr>m_score := Some s\<rparr>)
                          (filter (in_range (metadata st)) raw))
         \<and> (q_emb \<noteq> [] \<longrightarrow> fst (search st q_emb k) \<noteq> Inl IndexError)"
proof
  show "search_loop (metadata st) raw (heap st) [] =
           (Inr [length (heap st) ..<
                 length (heap st) + length (filter (in_range (metadata st)) raw)],
            heap st @ map (\<lambda>(s, i). (heap st ! (metadata st ! nat i))\<lparr>m_score := Some s\<rparr>)
                          (filter (in_range (metadata st)) raw))"
    using search_loop_ext [OF assms, of raw "[]" "[]"] by simp
  show "q_emb \<noteq> [] \<longrightarrow> fst (search st q_emb k) \<noteq> Inl IndexError"
    using search_cases [of st q_emb k] by auto
qed

theorem search_skips_out_of_range_ids_witness:
  "search_loop [0, 1] [(9 / 10, 1), (1 / 2, - 1), (1 / 10, 7)]
     [\<lparr>m_title = None, m_url = None, m_chunk_id = lit ''a'', m_text = lit ''x'', m_score = None\<rparr>,
      \<lparr>m_title = None, m_url = None, m_chunk_id = lit ''b'', m_text = lit ''y'', m_score = None\<rparr>] []
   = (Inr [2],
      [\<lparr>m_title = None, m_url = None, m_chunk_id = lit ''a'', m_text = lit ''x'', m_score = None\<rparr>,
       \<lparr>m_title = None, m_url = None, m_chunk_id = lit ''b'', m_text = lit ''y'', m_score = None\<rparr>,
       \<lparr>m_title = None, m_url = None, m_chunk_id = lit ''b'', m_text = lit ''y'', m_score = Some (9 / 10)\<rparr>]) \<and>
   fst (search \<lparr>heap = [\<lparr>m_title = None, m_url = None, m_chunk_id = lit ''a'', m_text = lit ''x'', m_score = None\<rparr>,
                        \<lparr>m_title = None, m_url = None, m_chunk_id = lit ''b'', m_text = lit ''y'', m_score = None\<rparr>],
                index = Some \<lparr>d = 1, xb = [[1]]\<rparr>, metadata = [0, 1], dim = Some 1\<rparr> [[1]] 1)
     \<noteq> Inl IndexError"
  using search_skips_out_of_range_ids
    [of "\<lparr>heap = [\<lparr>m_title = None, m_url = None, m_chunk_id = lit ''a'', m_text = lit ''x'', m_score = None\<rparr>,
                  \<lparr>m_title = None, m_url = None, m_chunk_id = lit ''b'', m_text = lit ''y'', m_score = None\<rparr>],
          index = Some \<lparr>d = 1, xb = [[1]]\<rparr>, metadata = [0, 1], dim = Some 1\<rparr>"
        "[(9 / 10, 1), (1 / 2, - 1), (1 / 10, 7)]" "[[1]]" 1]
  by (simp add: in_range_def)

section \<open>The number of search results\<close>

text \<open>
  Claim C6: \<open>search\<close> returns the empty list when there is no index or the index holds
  no vector; when the store holds fewer than \<open>k\<close> vectors, every list it returns has at
  most as many results as there are vectors, and it does return a list for a query
  array that has a row and the dimension of the index.
\<close>

theorem search_bounded_by_store:
  "(index st = None \<or> num_vectors st = 0 \<longrightarrow> search st q_emb k = (Inr [], st)) \<and>
   (int (num_vectors st) < k \<longrightarrow>
      (\<forall>res. fst (search st q_emb k) = Inr res \<longrightarrow> length res \<le> num_vectors st) \<and>
      (\<forall>ix. index st = Some ix \<and> q_emb \<noteq> [] \<and> (\<forall>q \<in> set q_emb. length q = d ix) \<longrightarrow>
         (\<exists>res. fst (search st q_emb k) = Inr res)))"
proof (intro conjI impI allI)
  assume "index st = None \<or> num_vectors st = 0"
  then have "num_vectors st = 0" by (auto simp: num_vectors_def)
  then show "search st q_emb k = (Inr [], st)" by (rule search_empty)
next
  fix res
  assume "int (num_vectors st) < k" and "fst (search st q_emb k) = Inr res"
  then show "length res \<le> num_vectors st"
    using search_cases [of st q_emb k] by auto
next
  fix ix
  assume k: "int (num_vectors st) < k"
    and h: "index st = Some ix \<and> q_emb \<noteq> [] \<and> (\<forall>q \<in> set q_emb. length q = d ix)"
  have "0 < k" using k by linarith
  then show "\<exists>res. fst (search st q_emb k) = Inr res"
    using h search_returns [of st ix q_emb k] by blast
qed


theorem search_bounded_by_store_witness:
  "(num_vectors \<lparr>heap = [], index = Some \<lparr>d = 1, xb = []\<rparr>, metadata = [], dim = Some 1\<rparr> = 0 \<and>
    search \<lparr>heap = [], index = Some \<lparr>d = 1, xb = []\<rparr>, metadata = [], dim = Some 1\<rparr> [[1]] 2
      = (Inr [], \<lparr>heap = [], index = Some \<lparr>d = 1, xb = []\<rparr>, metadata = [], dim = Some 1\<rparr>)) \<and>
   (int (num_vectors \<lparr>heap = [\<lparr>m_title = None, m_url = None, m_chunk_id = lit ''a'', m_text = lit ''x'', m_score = None\<rparr>],
                      index = Some \<lparr>d = 1, xb = [[1]]\<rparr>, metadata = [0], dim = Some 1\<rparr>) < 2 \<and>
    (\<exists>res. fst (search \<lparr>heap = [\<lparr>m_title = None, m_url = None, m_chunk_id = lit ''a'', m_text = lit ''x'', m_score = None\<rparr>],
                         index = Some \<lparr>d = 1, xb = [[1]]\<rparr>, metadata = [0], dim = Some 1\<rparr> [[1]] 2) = Inr res
           \<and> length res \<le> 1))"
proof -
  have a: "num_vectors \<lparr>heap = [], index = Some \<lparr>d = 1, xb = []\<rparr>, metadata = [], dim = Some 1\<rparr> = 0"
    by (simp add: num_vectors_def ntotal_def)
  have b: "num_vectors \<lparr>heap = [\<lparr>m_title = None, m_url = None, m_chunk_id = lit ''a'', m_text = lit ''x'', m_score = None\<rparr>],
                       index = Some \<lparr>d = 1, xb = [[1]]\<rparr>, metadata = [0], dim = Some 1\<rparr> = 1"
    by (simp add: num_vectors_def ntotal_def)
  show ?thesis
    using a b
      search_bounded_by_store [of "\<lparr>heap = [], index = Some \<lparr>d = 1, xb = []\<rparr>, metadata = [], dim = Some 1\<rparr>" "[[1]]" 2]
      search_bounded_by_store [of "\<lparr>heap = [\<lparr>m_title = None, m_url = None, m_chunk_id = lit ''a'', m_text = lit ''x'', m_score = None\<rparr>],
                       index = Some \<lparr>d = 1, xb = [[1]]\<rparr>, metadata = [0], dim = Some 1\<rparr>" "[[1]]" 2]
    by auto
qed

section \<open>add and the dimension of the index\<close>

text \<open>
  Claim C4: when the store has an index of dimension \<open>d\<close> and \<open>add\<close> is called with a
  non-empty array that has a row of another length, the call fails (the assertion
  \<open>d == self.d\<close> of the faiss wrapper raises AssertionError) and the state after the call is
  the state before it: no vector and no metadata record has been added.
\<close>

theorem add_dimension_mismatch:
  assumes "index st = Some ix" and "embs \<noteq> []" and "\<exists>v \<in> set embs. length v \<noteq> d ix"
  shows "add st embs metas = (Inl AssertionError, st)"
proof -
  have "\<not> (\<forall>v \<in> set (normalize_rows embs). length v = d ix)"
    using assms(3) by (auto simp: normalize_rows_def)
  then have "faiss_add ix (normalize_rows embs) = Inl AssertionError"
    by (simp add: faiss_add_def)
  then show ?thesis using assms(1,2) by (simp add: add_def init_if_needed_def Let_def)
qed


theorem add_dimension_mismatch_witness:
  "index \<lparr>heap = [], index = Some \<lparr>d = 2, xb = [[1, 0]]\<rparr>, metadata = [0], dim = Some 2\<rparr>
     = Some \<lparr>d = 2, xb = [[1, 0]]\<rparr> \<and>
   [[1, 2, 3 :: real]] \<noteq> [] \<and>
   (\<exists>v \<in> set [[1, 2, 3 :: real]]. length v \<noteq> d \<lparr>d = 2, xb = [[1, 0]]\<rparr>) \<and>
   add \<lparr>heap = [], index = Some \<lparr>d = 2, xb = [[1, 0]]\<rparr>, metadata = [0], dim = Some 2\<rparr> [[1, 2, 3]] [1]
     = (Inl AssertionError,
        \<lparr>heap = [], index = Some \<lparr>d = 2, xb = [[1, 0]]\<rparr>, metadata = [0], dim = Some 2\<rparr>)"
  using add_dimension_mismatch
    [of "\<lparr>heap = [], index = Some \<lparr>d = 2, xb = [[1, 0]]\<rparr>, metadata = [0], dim = Some 2\<rparr>"
        "\<lparr>d = 2, xb = [[1, 0]]\<rparr>" "[[1, 2, 3]]" "[1]"]
  by simp

section \<open>POST /query\<close>

text \<open>
  Claim C7: \<open>query_endpoint\<close> raises \<open>HTTPException(400)\<close> if and only if the query string
  is empty, and whatever it returns or raises, the index, the \<open>metadata\<close> list and \<open>dim\<close>
  of the store are as before and every object that existed before the call is
  unchanged: the heap after the call begins with the heap before it, the dictionaries
  with a score being new objects behind it.
\<close>

theorem query_endpoint_read_only:
  "(fst (query_endpoint encode st q top_k) = Inl (HTTPException 400) \<longleftrightarrow> q = []) \<and>
   index (snd (query_endpoint encode st q top_k)) = index st \<and>
   metadata (snd (query_endpoint encode st q top_k)) = metadata st \<and>
   dim (snd (query_endpoint encode st q top_k)) = dim st \<and>
   take (length (heap st)) (heap (snd (query_endpoint encode st q top_k))) = heap st"
proof (cases "q = []")
  case True
  then show ?thesis by (simp add: query_endpoint_def)
next
  case False
  consider (err) e where "search st (encode [q]) top_k = (Inl e, st)" "e = AssertionError \<or> e = IndexError"
    | (ok) res h' where "search st (encode [q]) top_k = (Inr res, st\<lparr>heap := h'\<rparr>)"
        "take (length (heap st)) h' = heap st"
    using search_cases [of st "encode [q]" top_k] by blast
  then show ?thesis
  proof cases
    case err
    then show ?thesis using False by (auto simp: query_endpoint_def)
  next
    case ok
    then show ?thesis using False by (simp add: query_endpoint_def)
  qed
qed

section \<open>Reconstructing the text from the chunks\<close>

lemma filter_dropWhile_neg: "filter (\<lambda>c. \<not> P c) (dropWhile P xs) = filter (\<lambda>c. \<not> P c) xs"
  by (induction xs) auto

lemma filter_strip: "filter (\<lambda>c. \<not> isspace c) (strip s) = filter (\<lambda>c. \<not> isspace c) s"
proof -
  have "filter (\<lambda>c. \<not> isspace c) (strip s)
          = rev (filter (\<lambda>c. \<not> isspace c) (dropWhile isspace (rev (dropWhile isspace s))))"
    by (simp add: strip_def rev_filter)
  also have "\<dots> = rev (filter (\<lambda>c. \<not> isspace c) (rev (dropWhile isspace s)))"
    by (simp only: filter_dropWhile_neg)
  also have "\<dots> = filter (\<lambda>c. \<not> isspace c) (dropWhile isspace s)"
    by (simp add: rev_filter)
  also have "\<dots> = filter (\<lambda>c. \<not> isspace c) s"
    by (rule filter_dropWhile_neg)
  finally show ?thesis .
qed

lemma filter_re_split:
  "filter (\<lambda>c. \<not> isspace c) (concat (re_split cur s)) = filter (\<lambda>c. \<not> isspace c) (cur @ s)"
proof (induction cur s rule: re_split.induct)
  case (1 cur)
  show ?case by simp
next
  case (2 cur c cs)
  show ?case
  proof (cases "isspace c \<and> cur \<noteq> [] \<and> terminal (last cur)")
    case True
    have "filter (\<lambda>c. \<not> isspace c) (concat (re_split [] (dropWhile isspace cs)))
            = filter (\<lambda>c. \<not> isspace c) cs"
      using "2.IH"(1) [OF True] by (simp add: filter_dropWhile_neg)
    then show ?thesis using True by simp
  next
    case False
    have eq: "re_split cur (c # cs) = re_split (cur @ [c]) cs"
      by (subst re_split.simps) (simp only: False if_False)
    have "filter (\<lambda>c. \<not> isspace c) (concat (re_split (cur @ [c]) cs))
            = filter (\<lambda>c. \<not> isspace c) ((cur @ [c]) @ cs)"
      using "2.IH"(2) [OF False] .
    then show ?thesis unfolding eq by simp
  qed
qed

lemma isspace_32: "isspace 32"
  by (simp add: isspace_def)

lemma lit_space: "lit '' '' = [32]"
  by (simp add: lit_def)

lemma filter_split_loop:
  assumes "\<forall>s \<in> set ss. int (length s) \<le> sz"
  shows "\<exists>chunks' cur'. split_loop sz overlap ss (chunks, cur) = Inr (chunks', cur') \<and>
           filter (\<lambda>c. \<not> isspace c) (concat chunks' @ cur')
             = filter (\<lambda>c. \<not> isspace c) (concat chunks @ cur @ concat ss)"
  using assms
proof (induction ss arbitrary: chunks cur)
  case Nil
  show ?case by simp
next
  case (Cons s ss)
  have s: "int (length s) \<le> sz" and ss: "\<forall>s \<in> set ss. int (length s) \<le> sz"
    using Cons.prems by auto
  show ?case
  proof (cases "int (length cur) + int (length s) \<le> sz")
    case True
    obtain chunks' cur' where ih:
      "split_loop sz overlap ss (chunks, strip (cur @ lit '' '' @ s)) = Inr (chunks', cur')"
      "filter (\<lambda>c. \<not> isspace c) (concat chunks' @ cur')
         = filter (\<lambda>c. \<not> isspace c) (concat chunks @ strip (cur @ lit '' '' @ s) @ concat ss)"
      using Cons.IH [OF ss, of chunks "strip (cur @ lit '' '' @ s)"] by blast
    have "filter (\<lambda>c. \<not> isspace c) (strip (cur @ lit '' '' @ s))
            = filter (\<lambda>c. \<not> isspace c) (cur @ s)"
      by (simp add: filter_strip lit_space isspace_32)
    then show ?thesis using True ih by simp
  next
    case False
    let ?chunks1 = "if cur \<noteq> [] then chunks @ [cur] else chunks"
    obtain chunks' cur' where ih:
      "split_loop sz overlap ss (?chunks1, s) = Inr (chunks', cur')"
      "filter (\<lambda>c. \<not> isspace c) (concat chunks' @ cur')
         = filter (\<lambda>c. \<not> isspace c) (concat ?chunks1 @ s @ concat ss)"
      using Cons.IH [OF ss, of ?chunks1 s] by blast
    have "concat ?chunks1 = concat chunks @ cur" by simp
    then show ?thesis using False s ih by (simp add: Let_def)
  qed
qed

text \<open>
  Claim C5: when no sentence of the text is longer than \<open>size\<close>, \<open>split_text\<close> with
  overlap 0 returns chunks whose concatenation has the same characters in the same
  order as the text, white space apart: nothing but white space is lost or duplicated.
\<close>

theorem split_text_reconstructs:
  assumes "\<forall>s \<in> set (re_split [] (strip text)). int (length s) \<le> sz"
  shows "\<exists>chunks. split_text text sz 0 = Inr chunks \<and>
           filter (\<lambda>c. \<not> isspace c) (concat chunks) = filter (\<lambda>c. \<not> isspace c) text"
proof (cases "text = []")
  case True
  then show ?thesis by (simp add: split_text_def)
next
  case False
  obtain chunks' cur' where l:
    "split_loop sz 0 (re_split [] (strip text)) ([], []) = Inr (chunks', cur')"
    "filter (\<lambda>c. \<not> isspace c) (concat chunks' @ cur')
       = filter (\<lambda>c. \<not> isspace c) (concat [] @ [] @ concat (re_split [] (strip text)))"
    using filter_split_loop [OF assms, of 0 "[]" "[]"] by blast
  have "filter (\<lambda>c. \<not> isspace c) (concat (re_split [] (strip text)))
          = filter (\<lambda>c. \<not> isspace c) text"
    by (simp add: filter_re_split filter_strip)
  then have "filter (\<lambda>c. \<not> isspace c) (concat chunks' @ cur') = filter (\<lambda>c. \<not> isspace c) text"
    using l(2) by simp
  moreover have "concat (if cur' \<noteq> [] then chunks' @ [cur'] else chunks') = concat chunks' @ cur'"
    by simp
  ultimately show ?thesis using False l(1) by (simp add: split_text_def)
qed

theorem split_text_reconstructs_witness:
  "\<exists>chunks. split_text (lit ''Hi.  Yo. Ok.'') 6 0 = Inr chunks \<and>
      filter (\<lambda>c. \<not> isspace c) (concat chunks) = lit ''Hi.Yo.Ok.''"
  using split_text_reconstructs [of "lit ''Hi.  Yo. Ok.''" 6]
  by (simp add: lit_def strip_def isspace_def terminal_def)

section \<open>The count invariant\<close>

lemma alloc_all_length: "alloc_all h ms = (as, h') \<Longrightarrow> length as = length ms"
proof (induction ms arbitrary: h as h')
  case Nil
  then show ?case by simp
next
  case (Cons m ms)
  obtain as1 h1 where r: "alloc_all (h @ [m]) ms = (as1, h1)" by (cases "alloc_all (h @ [m]) ms")
  then have "length as1 = length ms" by (rule Cons.IH)
  moreover have "as = length h # as1" using Cons.prems r by (simp add: alloc_def)
  ultimately show ?case by simp
qed

lemma load_num_vectors:
  "num_vectors (load st dk) = (case index_file dk of None \<Rightarrow> num_vectors st | Some ix \<Rightarrow> ntotal ix)"
  by (simp add: load_def num_vectors_def Let_def split: option.splits prod.splits)

lemma load_metadata_length:
  "length (metadata (load st dk))
     = (case meta_file dk of None \<Rightarrow> length (metadata st) | Some ms \<Rightarrow> length ms)"
  by (auto simp: load_def Let_def split: option.splits prod.splits dest: alloc_all_length)

lemma init_if_needed_counts:
  "num_vectors st = length (metadata st) \<Longrightarrow>
     num_vectors (init_if_needed st n) = length (metadata (init_if_needed st n))"
  by (auto simp: init_if_needed_def num_vectors_def IndexFlatIP_def ntotal_def split: option.splits)

lemma add_counts:
  assumes "num_vectors st = length (metadata st)" and "length embs = length metas"
  shows "num_vectors (snd (add st embs metas)) = length (metadata (snd (add st embs metas)))"
proof (cases "embs = []")
  case True
  then show ?thesis using assms(1) by (simp add: add_def)
next
  case False
  let ?st1 = "init_if_needed st (length (hd embs))"
  have inv1: "num_vectors ?st1 = length (metadata ?st1)" using assms(1) by (rule init_if_needed_counts)
  show ?thesis
  proof (cases "index ?st1")
    case None
    then show ?thesis using False inv1 by (simp add: add_def Let_def)
  next
    case (Some ix)
    show ?thesis
    proof (cases "faiss_add ix (normalize_rows embs)")
      case (Inl e)
      then show ?thesis using False Some inv1 by (simp add: add_def Let_def)
    next
      case (Inr ix1)
      then have "ntotal ix1 = ntotal ix + length embs"
        by (auto simp: faiss_add_def ntotal_def normalize_rows_def split: if_splits)
      moreover have "ntotal ix = length (metadata ?st1)" using inv1 Some by (simp add: num_vectors_def)
      moreover have "add st embs metas
          = (Inr (), ?st1\<lparr>index := Some ix1, metadata := metadata ?st1 @ metas\<rparr>)"
        using False Some Inr by (simp add: add_def Let_def)
      ultimately show ?thesis using assms(2) by (simp add: num_vectors_def)
    qed
  qed
qed

lemma search_counts:
  "num_vectors (snd (search st q_emb k)) = num_vectors st \<and>
   metadata (snd (search st q_emb k)) = metadata st"
  using search_cases [of st q_emb k] by (auto simp: num_vectors_def)

text \<open>
  Claim C3 (the number of vectors equals the length of \<open>metadata\<close> after every operation,
  also after \<open>load\<close> when one of the two files is absent) fails for \<open>load\<close>: it reads
  each file that exists without comparing them. With an index file holding one vector
  and no metadata file (what a crash between the two writes of the first \<open>save\<close>
  leaves), a new store has one vector and no metadata after \<open>load\<close>.
\<close>

theorem load_breaks_count_invariant:
  "num_vectors (load (FaissStore_init [])
        \<lparr>index_file = Some \<lparr>d = 1, xb = [[1]]\<rparr>, meta_file = None\<rparr>)
     \<noteq> length (metadata (load (FaissStore_init [])
        \<lparr>index_file = Some \<lparr>d = 1, xb = [[1]]\<rparr>, meta_file = None\<rparr>))"
  by (simp add: load_def FaissStore_init_def num_vectors_def ntotal_def)

text \<open>
  Claim C3 as amended: from a state where the counts agree, they agree after
  \<open>init_if_needed\<close>, after \<open>add\<close> when it is given as many metadata records as vectors,
  and after \<open>search\<close> (\<open>save\<close> does not change the store); after \<open>load\<close> they agree
  exactly when the number of vectors in the index file (that of the store when there is
  no such file) equals the number of records in the metadata file (that of the store
  when there is no such file).
\<close>

theorem count_invariant_preserved:
  assumes "num_vectors st = length (metadata st)"
  shows "num_vectors (init_if_needed st n) = length (metadata (init_if_needed st n)) \<and>
         (length embs = length metas \<longrightarrow>
            num_vectors (snd (add st embs metas)) = length (metadata (snd (add st embs metas)))) \<and>
         num_vectors (snd (search st q_emb k)) = length (metadata (snd (search st q_emb k))) \<and>
         (num_vectors (load st dk) = length (metadata (load st dk)) \<longleftrightarrow>
            (case index_file dk of None \<Rightarrow> num_vectors st | Some ix \<Rightarrow> ntotal ix)
              = (case meta_file dk of None \<Rightarrow> length (metadata st) | Some ms \<Rightarrow> length ms))"
  using assms init_if_needed_counts [OF assms, of n] add_counts [OF assms, of embs metas]
    search_counts [of st q_emb k]
  by (simp add: load_num_vectors load_metadata_length)

theorem count_invariant_preserved_witness:
  "num_vectors (init_if_needed (FaissStore_init []) 1) = length (metadata (init_if_needed (FaissStore_init []) 1)) \<and>
   num_vectors (snd (add (FaissStore_init []) [[1]] [0])) = length (metadata (snd (add (FaissStore_init []) [[1]] [0]))) \<and>
   num_vectors (snd (search (FaissStore_init []) [[1]] 1)) = length (metadata (snd (search (FaissStore_init []) [[1]] 1))) \<and>
   num_vectors (load (FaissStore_init []) \<lparr>index_file = None, meta_file = None\<rparr>)
     = length (metadata (load (FaissStore_init []) \<lparr>index_file = None, meta_file = None\<rparr>))"
proof -
  have inv: "num_vectors (FaissStore_init []) = length (metadata (FaissStore_init []))"
    by (simp add: FaissStore_init_def num_vectors_def)
  show ?thesis
    using count_invariant_preserved [OF inv, of 1 "[[1]]" "[0]" "[[1]]" 1 "\<lparr>index_file = None, meta_file = None\<rparr>"] inv
    by simp
qed

section \<open>Text of a plain file\<close>

lemma utf8_loop_ignore_total: "\<exists>t. utf8_loop Ignore bs = Inr t"
proof (induction "length bs" arbitrary: bs rule: less_induct)
  case less
  show ?case
  proof (cases bs)
    case Nil
    then show ?thesis by simp
  next
    case (Cons b r)
    obtain x n where st: "utf8_step (b # r) = (x, n)" by (cases "utf8_step (b # r)")
    have "length (drop (n - 1) r) < length bs" using Cons by simp
    then obtain t where t: "utf8_loop Ignore (drop (n - 1) r) = Inr t"
      using less by blast
    show ?thesis using Cons st t by (cases x) simp_all
  qed
qed

lemma utf8_step_char:
  assumes "utf8_step bs = (Some c, n)"
  shows "1 \<le> n \<and> n \<le> length bs \<and> utf8_step (take n bs @ rest) = (Some c, n)"
proof (cases bs)
  case Nil
  then show ?thesis using assms by simp
next
  case b0: (Cons b0 r)
  show ?thesis
  proof (cases r)
    case Nil
    then show ?thesis using assms b0 by (auto split: if_splits)
  next
    case b1: (Cons b1 r1)
    show ?thesis
    proof (cases r1)
      case Nil
      then show ?thesis using assms b0 b1 by (auto split: if_splits)
    next
      case b2: (Cons b2 r2)
      show ?thesis
      proof (cases r2)
        case Nil
        then show ?thesis using assms b0 b1 b2 by (auto split: if_splits)
      next
        case b3: (Cons b3 r3)
        then show ?thesis using assms b0 b1 b2 by (auto split: if_splits)
      qed
    qed
  qed
qed

lemma utf8_loop_ignore_dropped:
  "utf8_loop Ignore bs = Inr t \<Longrightarrow> \<exists>kept. subseq kept bs \<and> utf8_loop Strict kept = Inr t"
proof (induction "length bs" arbitrary: bs t rule: less_induct)
  case less
  show ?case
  proof (cases bs)
    case Nil
    then have "t = []" using less.prems by simp
    then show ?thesis using Nil by (intro exI [of _ "[]"]) simp
  next
    case (Cons b r)
    obtain x n where st: "utf8_step (b # r) = (x, n)" by (cases "utf8_step (b # r)")
    have shorter: "length (drop (n - 1) r) < length bs" using Cons by simp
    show ?thesis
    proof (cases x)
      case None
      then have "utf8_loop Ignore (drop (n - 1) r) = Inr t" using less.prems Cons st by simp
      then obtain kept where k: "subseq kept (drop (n - 1) r)" "utf8_loop Strict kept = Inr t"
        using less.hyps [OF shorter] by blast
      have "subseq kept (take (n - 1) r @ drop (n - 1) r)" using k(1) by (rule subseq_drop_many)
      then have "subseq kept r" by simp
      then have "subseq kept ([b] @ r)" by (rule subseq_drop_many)
      then have "subseq kept (b # r)" by simp
      then show ?thesis using k(2) Cons by auto
    next
      case (Some c)
      obtain t' where t': "utf8_loop Ignore (drop (n - 1) r) = Inr t'"
        using utf8_loop_ignore_total by blast
      then have t: "t = c # t'" using less.prems Cons st Some by simp
      obtain kept where k: "subseq kept (drop (n - 1) r)" "utf8_loop Strict kept = Inr t'"
        using less.hyps [OF shorter t'] by blast
      have stc: "1 \<le> n \<and> n \<le> length (b # r) \<and> utf8_step (take n (b # r) @ kept) = (Some c, n)"
        using st Some utf8_step_char [of "b # r" c n kept] by simp
      then obtain m where m: "n = Suc m" by (cases n) auto
      have tk: "take n (b # r) @ kept = b # (take m r @ kept)" by (simp add: m)
      have len: "length (take m r) = m" using stc m by simp
      have "utf8_loop Strict (b # (take m r @ kept)) = Inr (c # t')"
        using stc k(2) len unfolding tk by (simp add: m)
      moreover have "subseq (b # (take m r @ kept)) (b # r)"
      proof -
        have "subseq kept (drop m r)" using k(1) by (simp add: m)
        then have "subseq (take m r @ kept) (take m r @ drop m r)"
          by (simp only: subseq_append')
        then have "subseq (take m r @ kept) r" by simp
        then show ?thesis by simp
      qed
      ultimately show ?thesis using t Cons by (intro exI [of _ "b # (take m r @ kept)"]) simp
    qed
  qed
qed

lemma decode_utf8_ignore_example:
  "decode_utf8 Ignore [0x41, 0xE2, 0x28, 0xC3, 0xA9] = Inr [65, 40, 233]"
  by (simp add: decode_utf8_def cont_def second3_def)

text \<open>
  Claim C10: for a file whose name, in lower case as \<open>ingest\<close> tests it, ends neither in
  \<open>.pdf\<close> nor in \<open>.csv\<close>, the text is \<open>b.decode("utf-8", errors="ignore")\<close>. This
  decoding returns a string for every byte sequence, and the string is what strict
  decoding gives for the input with some bytes left out: undecodable bytes are dropped
  and raise nothing. The PDF and CSV readers play no part in the ingestion of such a
  file.
\<close>

theorem plain_text_decode_total:
  assumes "\<not> endswith (lower name) (lit ''.pdf'')" and "\<not> endswith (lower name) (lit ''.csv'')"
  shows "(\<exists>t kept. file_text pdf_pages name b = Inr t \<and> decode_utf8 Ignore b = Inr t \<and>
            subseq kept (map unat b) \<and> utf8_loop Strict kept = Inr t) \<and>
         ingest_loop encode pdf_pages read_csv [(name, b, ts)] st n
           = ingest_loop encode pdf_pages' read_csv' [(name, b, ts)] st n"
proof
  obtain t where t: "utf8_loop Ignore (map unat b) = Inr t"
    using utf8_loop_ignore_total by blast
  then obtain kept where "subseq kept (map unat b)" "utf8_loop Strict kept = Inr t"
    using utf8_loop_ignore_dropped by blast
  then show "\<exists>t kept. file_text pdf_pages name b = Inr t \<and> decode_utf8 Ignore b = Inr t \<and>
            subseq kept (map unat b) \<and> utf8_loop Strict kept = Inr t"
    using t assms(1) by (auto simp: file_text_def decode_utf8_def)
  have "file_text pdf_pages name b = file_text pdf_pages' name b"
    using assms(1) by (simp add: file_text_def)
  then show "ingest_loop encode pdf_pages read_csv [(name, b, ts)] st n
           = ingest_loop encode pdf_pages' read_csv' [(name, b, ts)] st n"
    using assms by (simp split: sum.splits prod.splits)
qed

theorem plain_text_decode_total_witness:
  "(\<exists>t kept. file_text (\<lambda>b. Inl ValueError) (lit ''Notes.TXT'') [0x41, 0xE2, 0x28, 0xC3, 0xA9] = Inr t \<and>
      decode_utf8 Ignore [0x41, 0xE2, 0x28, 0xC3, 0xA9] = Inr t \<and>
      subseq kept (map unat [0x41, 0xE2, 0x28, 0xC3, 0xA9 :: byte]) \<and>
      utf8_loop Strict kept = Inr t) \<and>
   ingest_loop (\<lambda>ps. map (\<lambda>p. [1]) ps) (\<lambda>b. Inl ValueError) (\<lambda>b. Inl ValueError)
       [(lit ''Notes.TXT'', [0x41, 0xE2, 0x28, 0xC3, 0xA9], 1730000000)] (FaissStore_init []) 0
     = ingest_loop (\<lambda>ps. map (\<lambda>p. [1]) ps) (\<lambda>b. Inr []) (\<lambda>b. Inr ([], []))
       [(lit ''Notes.TXT'', [0x41, 0xE2, 0x28, 0xC3, 0xA9], 1730000000)] (FaissStore_init []) 0"
proof -
  have pdf: "\<not> endswith (lower (lit ''Notes.TXT'')) (lit ''.pdf'')"
    by (simp add: endswith_def lower_def lit_def)
  have csv: "\<not> endswith (lower (lit ''Notes.TXT'')) (lit ''.csv'')"
    by (simp add: endswith_def lower_def lit_def)
  show ?thesis
    by (rule plain_text_decode_total [OF pdf csv])
qed

end
